theory Spec2Isabelle
  imports Complex_Main "HOL-Library.Monad_Syntax"
begin

section \<open>Python strings\<close>

text \<open>
  A Python \<open>str\<close> is a sequence of code points. It is modelled as a \<open>string\<close> whose
  characters are the code points below 256, so the model covers the texts written in
  that range. The whitespace and line-break sets below are Python's, cut to that range.
\<close>

datatype exn =
    IndexError
  | ValueError
  | ZeroDivisionError
  | OverflowError
  | GitHubAPIError string
  | RateLimitError string "int option"

text \<open>\<open>str.isspace\<close> for one character; also the class \<open>\s\<close> of \<open>re\<close>.\<close>

definition isspace :: "char \<Rightarrow> bool" where
  "isspace c \<longleftrightarrow> c \<in> set [CHR 0x09, CHR 0x0A, CHR 0x0B, CHR 0x0C, CHR 0x0D,
     CHR 0x1C, CHR 0x1D, CHR 0x1E, CHR 0x1F, CHR 0x20, CHR 0x85, CHR 0xA0]"

text \<open>The line boundaries of \<open>str.splitlines\<close>.\<close>

definition is_linebreak :: "char \<Rightarrow> bool" where
  "is_linebreak c \<longleftrightarrow> c \<in> set [CHR 0x0A, CHR 0x0B, CHR 0x0C, CHR 0x0D,
     CHR 0x1C, CHR 0x1D, CHR 0x1E, CHR 0x85]"

text \<open>\<open>s.strip()\<close> and \<open>s.strip(chars)\<close>.\<close>

definition strip :: "string \<Rightarrow> string" where
  "strip s = rev (dropWhile isspace (rev (dropWhile isspace s)))"

definition strip_chars :: "string \<Rightarrow> string \<Rightarrow> string" where
  "strip_chars chars s =
     rev (dropWhile (\<lambda>c. c \<in> set chars) (rev (dropWhile (\<lambda>c. c \<in> set chars) s)))"

text \<open>
  \<open>s.splitlines()\<close>: the text is cut after every line boundary, \<open>\r\n\<close> counts as one
  boundary, and no empty last line is produced. \<open>cr\<close> says that the character before was
  a carriage return that ended a line; \<open>cur\<close> is the line read so far, reversed.
\<close>

fun splitlines_from :: "bool \<Rightarrow> string \<Rightarrow> string \<Rightarrow> string list" where
  "splitlines_from cr cur [] = (if cur = [] then [] else [rev cur])"
| "splitlines_from cr cur (c # cs) =
     (if cr \<and> c = CHR 0x0A then splitlines_from False cur cs
      else if is_linebreak c then rev cur # splitlines_from (c = CHR 0x0D) [] cs
      else splitlines_from False (c # cur) cs)"

definition splitlines :: "string \<Rightarrow> string list" where
  "splitlines s = splitlines_from False [] s"

text \<open>\<open>strip_prefix p s\<close>: what follows \<open>p\<close> when \<open>s\<close> starts with \<open>p\<close>.\<close>

fun strip_prefix :: "'a list \<Rightarrow> 'a list \<Rightarrow> 'a list option" where
  "strip_prefix [] s = Some s"
| "strip_prefix (p # ps) [] = None"
| "strip_prefix (p # ps) (c # cs) = (if p = c then strip_prefix ps cs else None)"

text \<open>
  \<open>partition_sep sep s\<close>: the text before and the text after the first occurrence of
  \<open>sep\<close> in \<open>s\<close>, as \<open>s.partition(sep)\<close> finds it; \<open>None\<close> when there is none.
\<close>

fun partition_sep :: "'a list \<Rightarrow> 'a list \<Rightarrow> ('a list \<times> 'a list) option" where
  "partition_sep sep [] = (if sep = [] then Some ([], []) else None)"
| "partition_sep sep (c # cs) =
     (case strip_prefix sep (c # cs) of
        Some r \<Rightarrow> Some ([], r)
      | None \<Rightarrow> (case partition_sep sep cs of
                   None \<Rightarrow> None
                 | Some (a, r) \<Rightarrow> Some (c # a, r)))"

lemma strip_prefix_length:
  "strip_prefix p s = Some r \<Longrightarrow> length s = length p + length r"
  by (induction p s rule: strip_prefix.induct) (auto split: if_splits)

lemma partition_sep_length:
  "partition_sep sep s = Some (a, r) \<Longrightarrow> length s = length a + length sep + length r"
proof (induction s arbitrary: a r)
  case Nil
  then show ?case by (auto split: if_splits)
next
  case (Cons c cs)
  show ?case
  proof (cases "strip_prefix sep (c # cs)")
    case (Some r')
    with Cons.prems show ?thesis
      by (auto dest: strip_prefix_length)
  next
    case None
    with Cons.prems Cons.IH show ?thesis
      by (auto split: option.splits)
  qed
qed

text \<open>
  \<open>s.split(sep)\<close> for a separator that is not empty (Python raises \<open>ValueError\<close> for
  an empty one; every separator of this program is a literal that is not empty).
\<close>

function split_on :: "'a list \<Rightarrow> 'a list \<Rightarrow> 'a list list" where
  "split_on sep s =
     (if sep = [] then [s]
      else case partition_sep sep s of
             None \<Rightarrow> [s]
           | Some (a, r) \<Rightarrow> a # split_on sep r)"
  by pat_completeness auto
termination
  by (relation "measure (\<lambda>(sep, s). length s)")
     (auto dest: partition_sep_length)

declare split_on.simps [simp del]

text \<open>\<open>sep.join(xs)\<close>, \<open>sub in s\<close> and \<open>s.count(sub)\<close>.\<close>

fun join :: "'a list \<Rightarrow> 'a list list \<Rightarrow> 'a list" where
  "join sep [] = []"
| "join sep [x] = x"
| "join sep (x # y # ys) = x @ sep @ join sep (y # ys)"

definition contains :: "'a list \<Rightarrow> 'a list \<Rightarrow> bool" where
  "contains sub s \<longleftrightarrow> partition_sep sub s \<noteq> None"

definition str_count :: "'a list \<Rightarrow> 'a list \<Rightarrow> nat" where
  "str_count sub s = length (split_on sub s) - 1"

section \<open>generate\_awesome\_docker\_stars.py: parsing\<close>

record RepoEntry =
  name :: string
  slug :: string
  url :: string
  category :: string
  note_text :: string
  stars :: "int option"

definition guard :: "bool \<Rightarrow> unit option" where
  "guard b = (if b then Some () else None)"

subsection \<open>The regular expressions\<close>

text \<open>
  Each matcher is given a stripped line of \<open>splitlines\<close>, which holds no line feed, so
  \<open>.\<close> matches every character of it and \<open>$\<close> matches only at its end. Every
  repetition in these patterns runs over a class that excludes the character that must
  follow it, so the greedy match is the only one.
\<close>

text \<open>\<open>re.match(r"^(#{1,6})\s+(.*)$", line)\<close>: groups 1 and 2.\<close>

definition header_match :: "string \<Rightarrow> (string \<times> string) option" where
  "header_match line =
     (let hashes = takeWhile (\<lambda>c. c = CHR ''#'') line;
          rest = drop (length hashes) line
      in if 1 \<le> length hashes \<and> length hashes \<le> 6 \<and> takeWhile isspace rest \<noteq> []
         then Some (hashes, dropWhile isspace rest)
         else None)"

text \<open>
  \<open>re.match(r"^-+\s*\[([^\]]+)\]\((https?://github.com/[^)]+)\)\s*(.*)$", line)\<close>:
  the groups name, url and tail. The dot of \<open>github.com\<close> is the pattern's: it matches
  any character.
\<close>

definition bullet_match :: "string \<Rightarrow> (string \<times> string \<times> string) option" where
  "bullet_match line = do {
     let dashes = takeWhile (\<lambda>c. c = CHR ''-'') line;
     _ \<leftarrow> guard (dashes \<noteq> []);
     r1 \<leftarrow> strip_prefix ''['' (dropWhile isspace (drop (length dashes) line));
     let name = takeWhile (\<lambda>c. c \<noteq> CHR '']'') r1;
     _ \<leftarrow> guard (name \<noteq> []);
     r2 \<leftarrow> strip_prefix ''](http'' (drop (length name) r1);
     let s = (case strip_prefix ''s'' r2 of Some _ \<Rightarrow> ''s'' | None \<Rightarrow> []);
     r3 \<leftarrow> strip_prefix ''://github'' (drop (length s) r2);
     (dot, r4) \<leftarrow> (case r3 of [] \<Rightarrow> None | d # r \<Rightarrow> Some (d, r));
     r5 \<leftarrow> strip_prefix ''com/'' r4;
     let path = takeWhile (\<lambda>c. c \<noteq> CHR '')'') r5;
     _ \<leftarrow> guard (path \<noteq> []);
     r6 \<leftarrow> strip_prefix '')'' (drop (length path) r5);
     Some (name, ''http'' @ s @ ''://github'' @ [dot] @ ''com/'' @ path, dropWhile isspace r6)
   }"

subsection \<open>\_clean\_note\<close>

text \<open>\<open>re.sub(r"\s+", " ", text)\<close>\<close>

function collapse_ws :: "string \<Rightarrow> string" where
  "collapse_ws [] = []"
| "collapse_ws (c # cs) =
     (if isspace c then CHR '' '' # collapse_ws (dropWhile isspace cs)
      else c # collapse_ws cs)"
  by pat_completeness auto
termination
  by (relation "measure length") (auto simp: length_dropWhile_le less_Suc_eq_le)

text \<open>
  \<open>re.sub(r"\[(@?[^\]]+)\]\([^)]+\)", r"\1", text)\<close>: \<open>link_match\<close> is the pattern at
  the start of a text, giving group 1 and the text after the match.
\<close>

definition link_match :: "string \<Rightarrow> (string \<times> string) option" where
  "link_match s = do {
     r1 \<leftarrow> strip_prefix ''['' s;
     let label = takeWhile (\<lambda>c. c \<noteq> CHR '']'') r1;
     _ \<leftarrow> guard (label \<noteq> []);
     r2 \<leftarrow> strip_prefix '']('' (drop (length label) r1);
     let target = takeWhile (\<lambda>c. c \<noteq> CHR '')'') r2;
     _ \<leftarrow> guard (target \<noteq> []);
     r3 \<leftarrow> strip_prefix '')'' (drop (length target) r2);
     Some (label, r3)
   }"

lemma link_match_shorter: "link_match s = Some (l, r) \<Longrightarrow> length r < length s"
  by (auto simp: link_match_def guard_def Let_def split: Option.bind_splits if_splits
           dest!: strip_prefix_length)

function flatten_links :: "string \<Rightarrow> string" where
  "flatten_links [] = []"
| "flatten_links (c # cs) =
     (case link_match (c # cs) of
        Some (label, rest) \<Rightarrow> label @ flatten_links rest
      | None \<Rightarrow> c # flatten_links cs)"
  by pat_completeness auto
termination
  by (relation "measure length") (auto dest: link_match_shorter)

text \<open>\<open>re.sub(r"[:;][a-zA-Z0-9_]+:", "", text)\<close>\<close>

definition is_word :: "char \<Rightarrow> bool" where
  "is_word c \<longleftrightarrow>
     (let n = (of_char c :: nat)
      in (97 \<le> n \<and> n \<le> 122) \<or> (65 \<le> n \<and> n \<le> 90) \<or> (48 \<le> n \<and> n \<le> 57) \<or> n = 95)"

definition emoji_match :: "string \<Rightarrow> string option" where
  "emoji_match s =
     (case s of
        [] \<Rightarrow> None
      | c # r \<Rightarrow>
          if c = CHR '':'' \<or> c = CHR '';''
          then let w = takeWhile is_word r
               in if w = [] then None else strip_prefix '':'' (drop (length w) r)
          else None)"

lemma emoji_match_shorter: "emoji_match s = Some r \<Longrightarrow> length r < length s"
  by (auto simp: emoji_match_def Let_def split: list.splits if_splits
           dest!: strip_prefix_length)

function remove_emoji :: "string \<Rightarrow> string" where
  "remove_emoji [] = []"
| "remove_emoji (c # cs) =
     (case emoji_match (c # cs) of
        Some rest \<Rightarrow> remove_emoji rest
      | None \<Rightarrow> c # remove_emoji cs)"
  by pat_completeness auto
termination
  by (relation "measure length") (auto dest: emoji_match_shorter)

text \<open>
  \<open>_clean_note\<close>. The set of \<open>strip(" -\<dots>:")\<close> also holds the en dash and the em dash,
  which lie beyond the code points of this model.
\<close>

definition clean_note :: "string \<Rightarrow> string" where
  "clean_note text =
     strip (remove_emoji (flatten_links (strip_chars '' -:'' (collapse_ws text))))"

subsection \<open>\_current\_category and parse\_repos\<close>

definition current_category :: "string list \<Rightarrow> string" where
  "current_category headings =
     (if length headings \<le> 1 then [] else join '' / '' (drop 1 headings))"

record parse_state =
  headings :: "string list"
  entries :: "RepoEntry list"
  seen :: "string \<rightharpoonup> RepoEntry"

text \<open>One turn of the loop over the lines of \<open>parse_repos\<close>.\<close>

definition parse_line :: "parse_state \<Rightarrow> string \<Rightarrow> exn + parse_state" where
  "parse_line st raw_line =
     (let line = strip raw_line in
      case header_match line of
        Some (hashes, g2) \<Rightarrow>
          (let level = length hashes; title = strip g2
           in Inr (st\<lparr>headings := take (level - 1) (headings st) @ [title]\<rparr>))
      | None \<Rightarrow>
          (case bullet_match line of
             None \<Rightarrow> Inr st
           | Some (nm, u, tail) \<Rightarrow>
               (case split_on ''github.com/'' u of
                  _ # after # _ \<Rightarrow>
                    (let slug0 = strip_chars ''/''
                           (hd (split_on ''#'' (hd (split_on ''/?'' after))));
                         slug_parts = split_on ''/'' slug0
                     in if length slug_parts < 2 then Inr st
                        else
                          (let sl = join ''/'' (take 2 slug_parts);
                               nt = clean_note tail;
                               cat = current_category (headings st)
                           in case seen st sl of
                                Some _ \<Rightarrow> Inr st
                              | None \<Rightarrow>
                                  (let entry = \<lparr>name = strip nm, slug = sl,
                                         url = ''https://github.com/'' @ sl,
                                         category = cat, note_text = nt, stars = None\<rparr>
                                   in Inr (st\<lparr>seen := (seen st)(sl \<mapsto> entry),
                                              entries := entries st @ [entry]\<rparr>))))
                | _ \<Rightarrow> Inl IndexError)))"

fun parse_loop :: "parse_state \<Rightarrow> string list \<Rightarrow> exn + parse_state" where
  "parse_loop st [] = Inr st"
| "parse_loop st (l # ls) =
     (case parse_line st l of
        Inl e \<Rightarrow> Inl e
      | Inr st' \<Rightarrow> parse_loop st' ls)"

definition parse_repos :: "string \<Rightarrow> exn + RepoEntry list" where
  "parse_repos markdown =
     (case parse_loop \<lparr>headings = [], entries = [], seen = Map.empty\<rparr> (splitlines markdown) of
        Inl e \<Rightarrow> Inl e
      | Inr st \<Rightarrow> Inr (entries st))"

section \<open>get\_stars.py: normalize\_slug\<close>

text \<open>
  \<open>urlparse\<close> belongs to the standard library: it is a parameter of \<open>normalize_slug\<close>,
  and of its result only the two fields read here are kept. \<open>lower\<close> is \<open>str.lower\<close> on
  the code points below 256.
\<close>

record ParseResult =
  netloc :: string
  path :: string

definition lower_char :: "char \<Rightarrow> char" where
  "lower_char c =
     (let n = (of_char c :: nat)
      in if (65 \<le> n \<and> n \<le> 90) \<or> (192 \<le> n \<and> n \<le> 222 \<and> n \<noteq> 215)
         then char_of (n + 32) else c)"

definition lower :: "string \<Rightarrow> string" where
  "lower s = map lower_char s"

definition normalize_slug :: "(string \<Rightarrow> ParseResult) \<Rightarrow> string \<Rightarrow> exn + string" where
  "normalize_slug urlparse repo =
     (if contains ''://'' repo then
        (let parsed = urlparse repo
         in if lower (netloc parsed) \<noteq> ''github.com'' then Inl ValueError
            else
              (let parts = split_on ''/'' (strip_chars ''/'' (path parsed))
               in if length parts < 2 then Inl ValueError
                  else Inr (join ''/'' (take 2 parts))))
      else if str_count ''/'' repo \<noteq> 1 then Inl ValueError
      else Inr repo)"

section \<open>Notions used by the properties\<close>

text \<open>
  \<open>good_slug\<close>: a first segment that is not empty, one slash, a second segment; neither
  segment holds a slash.
\<close>

definition good_slug :: "string \<Rightarrow> bool" where
  "good_slug sl \<longleftrightarrow>
     (\<exists>a b. sl = a @ ''/'' @ b \<and> a \<noteq> [] \<and> CHR ''/'' \<notin> set a \<and> CHR ''/'' \<notin> set b)"

text \<open>The regular expression \<open>^[^/]+/[^/]+$\<close>: two segments, neither empty.\<close>

definition owner_repo_pattern :: "string \<Rightarrow> bool" where
  "owner_repo_pattern s \<longleftrightarrow>
     (case split_on ''/'' s of [a, b] \<Rightarrow> a \<noteq> [] \<and> b \<noteq> [] | _ \<Rightarrow> False)"

text \<open>The state in which nothing has been read under the headings \<open>hs\<close>.\<close>

definition fresh :: "string list \<Rightarrow> parse_state" where
  "fresh hs = \<lparr>headings = hs, entries = [], seen = Map.empty\<rparr>"

text \<open>The invariant of the loop of \<open>parse_repos\<close>.\<close>

definition parse_inv :: "parse_state \<Rightarrow> bool" where
  "parse_inv st \<longleftrightarrow>
     (\<forall>e\<in>set (entries st). good_slug (slug e)) \<and>
     distinct (map slug (entries st)) \<and>
     (\<forall>sl. seen st sl \<noteq> None \<longleftrightarrow> sl \<in> slug ` set (entries st))"

text \<open>
  \<open>candidates hs ls\<close>: the entries that the lines \<open>ls\<close> yield one by one, in document
  order, each line read by the loop body of \<open>parse_repos\<close> with nothing seen before it,
  under the headings open at that line (\<open>hs\<close> at the first one).
\<close>

fun candidates :: "string list \<Rightarrow> string list \<Rightarrow> exn + RepoEntry list" where
  "candidates hs [] = Inr []"
| "candidates hs (l # ls) =
     (case parse_line (fresh hs) l of
        Inl e \<Rightarrow> Inl e
      | Inr f \<Rightarrow>
          (case candidates (headings f) ls of
             Inl e \<Rightarrow> Inl e
           | Inr cs \<Rightarrow> Inr (entries f @ cs)))"

text \<open>
  \<open>keep_first ss cs\<close>: of the entries \<open>cs\<close>, those whose slug is neither in \<open>ss\<close> nor the
  slug of an earlier entry of \<open>cs\<close>.
\<close>

fun keep_first :: "string list \<Rightarrow> RepoEntry list \<Rightarrow> RepoEntry list" where
  "keep_first ss [] = []"
| "keep_first ss (c # cs) =
     (if slug c \<in> set ss then keep_first ss cs
      else c # keep_first (ss @ [slug c]) cs)"

text \<open>
  \<open>open_headings hs ls\<close>: the heading stack after the lines \<open>ls\<close>, when every heading line
  of level \<open>L\<close> cuts the stack to its first \<open>L - 1\<close> titles and pushes its own, and no
  other line touches it.
\<close>

fun open_headings :: "string list \<Rightarrow> string list \<Rightarrow> string list" where
  "open_headings hs [] = hs"
| "open_headings hs (l # ls) =
     open_headings
       (case header_match (strip l) of
          Some (hashes, title) \<Rightarrow> take (length hashes - 1) hs @ [strip title]
        | None \<Rightarrow> hs) ls"

section \<open>Lemmas on strings\<close>

lemma strip_prefix_append: "strip_prefix p s = Some r \<Longrightarrow> s = p @ r"
  by (induction p s rule: strip_prefix.induct) (auto split: if_splits)

lemma partition_sep_append:
  "partition_sep sep s = Some (a, r) \<Longrightarrow> s = a @ sep @ r"
proof (induction s arbitrary: a r)
  case Nil
  then show ?case by (auto split: if_splits)
next
  case (Cons c cs)
  show ?case
  proof (cases "strip_prefix sep (c # cs)")
    case (Some r')
    with Cons.prems show ?thesis by (auto dest: strip_prefix_append)
  next
    case None
    with Cons.prems Cons.IH show ?thesis
      by (auto split: option.splits)
  qed
qed

lemma partition_sep_single:
  "partition_sep [c] s =
     (if c \<in> set s then Some (takeWhile (\<lambda>x. x \<noteq> c) s, tl (dropWhile (\<lambda>x. x \<noteq> c) s))
      else None)"
  by (induction s) auto

lemma split_on_not_Nil: "split_on sep s \<noteq> []"
  by (subst split_on.simps) (auto split: option.splits)

lemma split_on_single_absent: "c \<notin> set s \<Longrightarrow> split_on [c] s = [s]"
  by (subst split_on.simps) (simp add: partition_sep_single)

lemma split_on_single_present:
  "c \<in> set s \<Longrightarrow>
     split_on [c] s = takeWhile (\<lambda>x. x \<noteq> c) s # split_on [c] (tl (dropWhile (\<lambda>x. x \<noteq> c) s))"
  by (subst split_on.simps) (simp add: partition_sep_single)

lemma split_on_single_pieces:
  "p \<in> set (split_on [c] s) \<Longrightarrow> c \<notin> set p"
proof (induction "length s" arbitrary: s rule: less_induct)
  case less
  show ?case
  proof (cases "c \<in> set s")
    case False
    with less.prems show ?thesis by (simp add: split_on_single_absent)
  next
    case True
    let ?r = "tl (dropWhile (\<lambda>x. x \<noteq> c) s)"
    have "dropWhile (\<lambda>x. x \<noteq> c) s \<noteq> []"
      using True by (auto simp: dropWhile_eq_Nil_conv)
    then have "length ?r < length (dropWhile (\<lambda>x. x \<noteq> c) s)"
      by (cases "dropWhile (\<lambda>x. x \<noteq> c) s") simp_all
    also have "\<dots> \<le> length s"
      by (rule length_dropWhile_le)
    finally have "length ?r < length s" .
    with less.hyps[of ?r] less.prems True show ?thesis
      by (auto simp: split_on_single_present dest: set_takeWhileD)
  qed
qed

lemma strip_chars_hd:
  "strip_chars cs s = [] \<or> hd (strip_chars cs s) \<notin> set cs"
proof (cases "dropWhile (\<lambda>c. c \<in> set cs) s")
  case Nil
  show ?thesis unfolding strip_chars_def Nil by simp
next
  case (Cons x t)
  then have nx: "x \<notin> set cs"
    by (metis hd_dropWhile list.sel(1) list.distinct(1))
  have "\<exists>u. dropWhile (\<lambda>c. c \<in> set cs) (rev t @ [x]) = u @ [x]"
    using nx by (cases "\<forall>y\<in>set (rev t). y \<in> set cs") (auto simp: dropWhile_append)
  then show ?thesis
    using Cons nx by (auto simp: strip_chars_def)
qed

lemma slug_shape:
  assumes "2 \<le> length (split_on ''/'' (strip_chars ''/'' x))"
  shows "good_slug (join ''/'' (take 2 (split_on ''/'' (strip_chars ''/'' x))))"
proof -
  let ?s = "strip_chars ''/'' x"
  let ?c = "CHR ''/''"
  have in_s: "?c \<in> set ?s"
    using assms by (cases "?c \<in> set ?s") (simp_all add: split_on_single_absent)
  then have ne: "?s \<noteq> []" by auto
  with strip_chars_hd[of "''/''" x] have hd: "hd ?s \<noteq> ?c" by simp
  let ?a = "takeWhile (\<lambda>x. x \<noteq> ?c) ?s"
  let ?r = "tl (dropWhile (\<lambda>x. x \<noteq> ?c) ?s)"
  have sp: "split_on ''/'' ?s = ?a # split_on ''/'' ?r"
    using in_s by (rule split_on_single_present)
  obtain b bs where r: "split_on ''/'' ?r = b # bs"
    using split_on_not_Nil[of "''/''" ?r] by (cases "split_on ''/'' ?r") auto
  have a_ne: "?a \<noteq> []"
    using ne hd by (cases ?s) auto
  have a_no: "?c \<notin> set ?a"
    by (auto dest: set_takeWhileD)
  have b_no: "?c \<notin> set b"
    using split_on_single_pieces[of b ?c ?r] r by simp
  have "join ''/'' (take 2 (split_on ''/'' ?s)) = ?a @ ''/'' @ b"
    by (simp add: sp r)
  with a_ne a_no b_no show ?thesis
    unfolding good_slug_def by blast
qed

lemma good_slug_split:
  assumes "good_slug sl"
  shows "\<exists>a b. split_on ''/'' sl = [a, b] \<and> sl = a @ ''/'' @ b \<and> a \<noteq> []"
proof -
  from assms obtain a b where sl: "sl = a @ ''/'' @ b" and a: "a \<noteq> []"
    and na: "CHR ''/'' \<notin> set a" and nb: "CHR ''/'' \<notin> set b"
    unfolding good_slug_def by blast
  have tw: "takeWhile (\<lambda>x. x \<noteq> CHR ''/'') sl = a"
    using na unfolding sl by (auto simp: takeWhile_tail)
  have dw: "dropWhile (\<lambda>x. x \<noteq> CHR ''/'') sl = CHR ''/'' # b"
    using na unfolding sl by (auto simp: dropWhile_append3)
  have "split_on ''/'' sl = a # split_on ''/'' b"
    using split_on_single_present[of "CHR ''/''" sl] tw dw sl by simp
  also have "split_on ''/'' b = [b]"
    using nb by (rule split_on_single_absent)
  finally show ?thesis using sl a by blast
qed

lemma good_slug_count: "good_slug sl \<Longrightarrow> str_count ''/'' sl = 1"
  using good_slug_split[of sl] by (auto simp: str_count_def)

lemma good_slug_no_scheme:
  assumes "good_slug sl"
  shows "\<not> contains ''://'' sl"
proof
  assume "contains ''://'' sl"
  then obtain x r where "partition_sep ''://'' sl = Some (x, r)"
    by (auto simp: contains_def)
  then have "sl = x @ ''://'' @ r"
    by (rule partition_sep_append)
  then have two: "2 \<le> length (filter (\<lambda>c. c = CHR ''/'') sl)"
    by simp
  from assms obtain a b where "sl = a @ ''/'' @ b"
    and "CHR ''/'' \<notin> set a" and "CHR ''/'' \<notin> set b"
    unfolding good_slug_def by blast
  then have "length (filter (\<lambda>c. c = CHR ''/'') sl) = 1"
    by (auto simp: filter_empty_conv)
  with two show False by simp
qed

section \<open>Lemmas on the loop of parse\_repos\<close>

lemma parse_line_header:
  "header_match (strip l) = Some (hashes, g2) \<Longrightarrow>
     parse_line st l = Inr (st\<lparr>headings := take (length hashes - 1) (headings st) @ [strip g2]\<rparr>)"
  by (simp add: parse_line_def Let_def)

lemma parse_line_plain:
  "header_match (strip l) = None \<Longrightarrow> bullet_match (strip l) = None \<Longrightarrow> parse_line st l = Inr st"
  by (simp add: parse_line_def)

lemma parse_line_bullet:
  assumes "header_match (strip l) = None" and "bullet_match (strip l) = Some (nm, u, tail)"
  shows "parse_line st l =
     (case split_on ''github.com/'' u of
        _ # after # _ \<Rightarrow>
          (let slug_parts = split_on ''/'' (strip_chars ''/''
                 (hd (split_on ''#'' (hd (split_on ''/?'' after)))))
           in if length slug_parts < 2 then Inr st
              else
                (let sl = join ''/'' (take 2 slug_parts)
                 in case seen st sl of
                      Some _ \<Rightarrow> Inr st
                    | None \<Rightarrow>
                        (let entry = \<lparr>name = strip nm, slug = sl,
                               url = ''https://github.com/'' @ sl,
                               category = current_category (headings st),
                               note_text = clean_note tail, stars = None\<rparr>
                         in Inr (st\<lparr>seen := (seen st)(sl \<mapsto> entry),
                                    entries := entries st @ [entry]\<rparr>))))
      | _ \<Rightarrow> Inl IndexError)"
  unfolding parse_line_def Let_def assms by simp

lemma parse_line_cases:
  assumes "parse_line st l = Inr st'"
  shows "(\<exists>hashes g2. header_match (strip l) = Some (hashes, g2) \<and>
            st' = st\<lparr>headings := take (length hashes - 1) (headings st) @ [strip g2]\<rparr>)
       \<or> (header_match (strip l) = None \<and> st' = st)
       \<or> (header_match (strip l) = None \<and>
           (\<exists>e. st' = st\<lparr>seen := (seen st)(slug e \<mapsto> e), entries := entries st @ [e]\<rparr> \<and>
                seen st (slug e) = None \<and> good_slug (slug e) \<and>
                category e = current_category (headings st)))"
proof (cases "header_match (strip l)")
  case (Some p)
  then obtain hashes g2 where "header_match (strip l) = Some (hashes, g2)"
    by (cases p) auto
  with assms show ?thesis
    by (auto simp: parse_line_header)
next
  case None
  note h = None
  show ?thesis
  proof (cases "bullet_match (strip l)")
    case None
    with h assms show ?thesis by (simp add: parse_line_plain)
  next
    case (Some q)
    then obtain nm u tail where b: "bullet_match (strip l) = Some (nm, u, tail)"
      by (cases q) auto
    note pl = parse_line_bullet[OF h b, of st]
    show ?thesis
    proof (cases "split_on ''github.com/'' u")
      case Nil
      with pl assms show ?thesis by simp
    next
      case (Cons x xs)
      note c1 = Cons
      show ?thesis
      proof (cases xs)
        case Nil
        with pl assms c1 show ?thesis by simp
      next
        case (Cons after ys)
        define parts where "parts = split_on ''/'' (strip_chars ''/''
                 (hd (split_on ''#'' (hd (split_on ''/?'' after)))))"
        define sl where "sl = join ''/'' (take 2 parts)"
        define entry where "entry = \<lparr>name = strip nm, slug = sl,
                               url = ''https://github.com/'' @ sl,
                               category = current_category (headings st),
                               note_text = clean_note tail, stars = None\<rparr>"
        have pl': "parse_line st l =
            (if length parts < 2 then Inr st
             else case seen st sl of Some _ \<Rightarrow> Inr st
                  | None \<Rightarrow> Inr (st\<lparr>seen := (seen st)(sl \<mapsto> entry),
                                    entries := entries st @ [entry]\<rparr>))"
          unfolding pl c1 Cons parts_def sl_def entry_def Let_def by simp
        show ?thesis
        proof (cases "length parts < 2")
          case True
          with pl' assms h show ?thesis by simp
        next
          case False
          then have g: "good_slug sl"
            unfolding sl_def parts_def by (intro slug_shape) simp
          show ?thesis
          proof (cases "seen st sl")
            case (Some a)
            with pl' False assms h show ?thesis by simp
          next
            case None
            with pl' False assms
            have st': "st' = st\<lparr>seen := (seen st)(sl \<mapsto> entry), entries := entries st @ [entry]\<rparr>"
              by simp
            have e: "slug entry = sl" "category entry = current_category (headings st)"
              by (simp_all add: entry_def)
            from st' None g e h show ?thesis
              by (intro disjI2 conjI exI[of _ entry]) simp_all
          qed
        qed
      qed
    qed
  qed
qed

lemma parse_inv_fresh: "parse_inv (fresh hs)"
  by (simp add: parse_inv_def fresh_def)

lemma parse_line_inv:
  assumes "parse_line st l = Inr st'" and "parse_inv st"
  shows "parse_inv st'"
  using parse_line_cases[OF assms(1)]
proof (elim disjE exE conjE)
  fix hashes g2
  assume "st' = st\<lparr>headings := take (length hashes - 1) (headings st) @ [strip g2]\<rparr>"
  with assms(2) show ?thesis by (simp add: parse_inv_def)
next
  assume "st' = st"
  with assms(2) show ?thesis by simp
next
  fix e
  assume new: "st' = st\<lparr>seen := (seen st)(slug e \<mapsto> e), entries := entries st @ [e]\<rparr>"
    "seen st (slug e) = None" "good_slug (slug e)"
  from assms(2) new(2) have notin: "slug e \<notin> slug ` set (entries st)"
    unfolding parse_inv_def by blast
  from assms(2) new(3) notin show ?thesis
    unfolding parse_inv_def new(1) by auto
qed

lemma parse_loop_inv:
  "parse_loop st ls = Inr st' \<Longrightarrow> parse_inv st \<Longrightarrow> parse_inv st'"
proof (induction ls arbitrary: st)
  case Nil
  then show ?case by simp
next
  case (Cons l ls)
  then show ?case
    by (auto split: sum.splits dest: parse_line_inv)
qed

lemma parse_repos_inv:
  assumes "parse_repos md = Inr es"
  shows "\<exists>st. parse_inv st \<and> entries st = es"
proof -
  from assms obtain st where
    "parse_loop (fresh []) (splitlines md) = Inr st" "entries st = es"
    by (auto simp: parse_repos_def fresh_def split: sum.splits)
  with parse_loop_inv[OF this(1) parse_inv_fresh] show ?thesis by blast
qed

lemma parse_line_fresh:
  "parse_line st l =
     (case parse_line (fresh (headings st)) l of
        Inl e \<Rightarrow> Inl e
      | Inr f \<Rightarrow>
          (case entries f of
             [] \<Rightarrow> Inr (st\<lparr>headings := headings f\<rparr>)
           | c # _ \<Rightarrow>
               (case seen st (slug c) of
                  Some _ \<Rightarrow> Inr st
                | None \<Rightarrow> Inr (st\<lparr>seen := (seen st)(slug c \<mapsto> c),
                                  entries := entries st @ [c]\<rparr>))))"
proof (cases "header_match (strip l)")
  case (Some p)
  then obtain hashes g2 where "header_match (strip l) = Some (hashes, g2)"
    by (cases p) auto
  then show ?thesis
    by (simp add: parse_line_header fresh_def)
next
  case None
  note h = None
  show ?thesis
  proof (cases "bullet_match (strip l)")
    case None
    with h show ?thesis by (simp add: parse_line_plain fresh_def)
  next
    case (Some q)
    then obtain nm u tail where b: "bullet_match (strip l) = Some (nm, u, tail)"
      by (cases q) auto
    show ?thesis
      unfolding parse_line_bullet[OF h b] fresh_def
      by (simp add: Let_def split: list.splits option.splits)
  qed
qed

lemma parse_line_fresh_shape:
  assumes "parse_line (fresh hs) l = Inr f"
  shows "entries f = [] \<or> (\<exists>c. entries f = [c] \<and> headings f = hs)"
  using parse_line_cases[OF assms]
  by (elim disjE exE conjE) (simp_all add: fresh_def)

lemma keep_first_find:
  "e \<in> set (keep_first ss cs) \<Longrightarrow>
     slug e \<notin> set ss \<and> find (\<lambda>c. slug c = slug e) cs = Some e"
proof (induction cs arbitrary: ss)
  case Nil
  then show ?case by simp
next
  case (Cons c cs)
  show ?case
  proof (cases "slug c \<in> set ss")
    case True
    with Cons.prems have "e \<in> set (keep_first ss cs)" by simp
    from Cons.IH[OF this] True show ?thesis by auto
  next
    case False
    with Cons.prems have "e = c \<or> e \<in> set (keep_first (ss @ [slug c]) cs)" by simp
    then show ?thesis
    proof
      assume "e = c"
      with False show ?thesis by simp
    next
      assume "e \<in> set (keep_first (ss @ [slug c]) cs)"
      from Cons.IH[OF this] show ?thesis by auto
    qed
  qed
qed

lemma keep_first_slugs:
  "slug ` set (keep_first ss cs) = slug ` set cs - set ss"
  by (induction cs arbitrary: ss) auto

lemma keep_first_distinct: "distinct (map slug (keep_first ss cs))"
proof (induction cs arbitrary: ss)
  case Nil
  then show ?case by simp
next
  case (Cons c cs)
  have "slug c \<notin> slug ` set (keep_first (ss @ [slug c]) cs)"
    by (simp add: keep_first_slugs)
  with Cons show ?case by simp
qed

lemma parse_loop_candidates:
  assumes "\<forall>sl. seen st sl \<noteq> None \<longleftrightarrow> sl \<in> slug ` set (entries st)"
  shows "case candidates (headings st) ls of
           Inl e \<Rightarrow> parse_loop st ls = Inl e
         | Inr cs \<Rightarrow> (\<exists>st'. parse_loop st ls = Inr st' \<and>
               entries st' = entries st @ keep_first (map slug (entries st)) cs)"
  using assms
proof (induction ls arbitrary: st)
  case Nil
  then show ?case by simp
next
  case (Cons l ls)
  show ?case
  proof (cases "parse_line (fresh (headings st)) l")
    case (Inl e)
    then show ?thesis
      by (simp add: parse_line_fresh[of st l])
  next
    case (Inr f)
    from parse_line_fresh_shape[OF Inr]
    consider (none) "entries f = []" | (one) c where "entries f = [c]" "headings f = headings st"
      by blast
    then show ?thesis
    proof cases
      case none
      let ?st1 = "st\<lparr>headings := headings f\<rparr>"
      have pl: "parse_line st l = Inr ?st1"
        using Inr none by (simp add: parse_line_fresh[of st l])
      have inv: "\<forall>sl. seen ?st1 sl \<noteq> None \<longleftrightarrow> sl \<in> slug ` set (entries ?st1)"
        using Cons.prems by simp
      from Cons.IH[OF inv] show ?thesis
        using Inr none pl by (simp split: sum.splits)
    next
      case one
      show ?thesis
      proof (cases "seen st (slug c)")
        case (Some a)
        have pl: "parse_line st l = Inr st"
          using Inr one Some by (simp add: parse_line_fresh[of st l])
        from Cons.prems have "seen st (slug c) \<noteq> None \<longleftrightarrow> slug c \<in> slug ` set (entries st)"
          by (rule spec)
        with Some have mem: "slug c \<in> set (map slug (entries st))"
          by simp
        from Cons.IH[OF Cons.prems] show ?thesis
          using Inr one pl mem by (simp split: sum.splits)
      next
        case None
        let ?st1 = "st\<lparr>seen := (seen st)(slug c \<mapsto> c), entries := entries st @ [c]\<rparr>"
        have pl: "parse_line st l = Inr ?st1"
          using Inr one None by (simp add: parse_line_fresh[of st l])
        from Cons.prems have "seen st (slug c) \<noteq> None \<longleftrightarrow> slug c \<in> slug ` set (entries st)"
          by (rule spec)
        with None have nmem: "slug c \<notin> set (map slug (entries st))"
          by simp
        have inv: "\<forall>sl. seen ?st1 sl \<noteq> None \<longleftrightarrow> sl \<in> slug ` set (entries ?st1)"
          using Cons.prems by auto
        from Cons.IH[OF inv] show ?thesis
          using Inr one pl nmem by (simp split: sum.splits)
      qed
    qed
  qed
qed

lemma header_match_level:
  "header_match l = Some (hashes, title) \<Longrightarrow> 1 \<le> length hashes \<and> length hashes \<le> 6"
  by (auto simp: header_match_def Let_def split: if_splits)

lemma parse_line_headings:
  assumes "parse_line st l = Inr st'"
  shows "headings st' =
     (case header_match (strip l) of
        Some (hashes, title) \<Rightarrow> take (length hashes - 1) (headings st) @ [strip title]
      | None \<Rightarrow> headings st)"
  using parse_line_cases[OF assms]
  by (elim disjE exE conjE) simp_all

lemma parse_loop_headings:
  "parse_loop st ls = Inr st' \<Longrightarrow> headings st' = open_headings (headings st) ls"
proof (induction ls arbitrary: st)
  case Nil
  then show ?case by simp
next
  case (Cons l ls)
  from Cons.prems obtain st1 where
    1: "parse_line st l = Inr st1" and 2: "parse_loop st1 ls = Inr st'"
    by (auto split: sum.splits)
  from Cons.IH[OF 2] parse_line_headings[OF 1] show ?case by simp
qed

lemma current_category_eq:
  "current_category hs = (if length hs \<le> 1 then [] else join '' / '' (tl hs))"
  by (simp add: current_category_def drop_Suc)

section \<open>Properties of parse\_repos\<close>

text \<open>
  C1. The slug of a bullet is the text of the link after \<open>github.com/\<close>, cut at the first
  \<open>?\<close> or \<open>#\<close>, without outer slashes, kept to its first two segments. The source cuts at
  the first \<open>/?\<close>, not at the first \<open>?\<close>: for the link
  \<open>https://github.com/foo/bar?tab=x\<close> the query stays in the slug, which is
  \<open>foo/bar?tab=x\<close> and not \<open>foo/bar\<close>.
\<close>

theorem parse_repos_keeps_query:
  "parse_repos ''- [x](https://github.com/foo/bar?tab=x)'' =
     Inr [\<lparr>name = ''x'', slug = ''foo/bar?tab=x'',
           url = ''https://github.com/foo/bar?tab=x'',
           category = [], note_text = [], stars = None\<rparr>]"
  by code_simp

text \<open>
  C2, as the code has it. Every slug that \<open>parse_repos\<close> returns is a first segment that
  is not empty, one slash, and a second segment, with no slash inside either segment: the
  slug never starts with a slash. The second segment may be empty, so the slug may end
  with the slash.
\<close>

theorem parse_repos_slug_shape:
  "parse_repos md = Inr es \<Longrightarrow> e \<in> set es \<Longrightarrow>
     \<exists>a b. slug e = a @ ''/'' @ b \<and> a \<noteq> [] \<and> CHR ''/'' \<notin> set a \<and> CHR ''/'' \<notin> set b"
  using parse_repos_inv[of md es] unfolding parse_inv_def good_slug_def by blast

theorem parse_repos_slug_shape_witness:
  "parse_repos ''- [x](https://github.com/foo//bar)'' =
     Inr [\<lparr>name = ''x'', slug = ''foo/'', url = ''https://github.com/foo/'',
           category = [], note_text = [], stars = None\<rparr>]
   \<and> (\<exists>a b. ''foo/'' = a @ ''/'' @ b \<and> a \<noteq> [] \<and> CHR ''/'' \<notin> set a \<and> CHR ''/'' \<notin> set b)"
proof -
  let ?e = "\<lparr>name = ''x'', slug = ''foo/'', url = ''https://github.com/foo/'',
           category = [], note_text = [], stars = None\<rparr>"
  have h: "parse_repos ''- [x](https://github.com/foo//bar)'' = Inr [?e]"
    by code_simp
  from parse_repos_slug_shape[OF h, of ?e] h show ?thesis by simp
qed

text \<open>
  The claim C2 itself, that every slug matches \<open>^[^/]+/[^/]+$\<close>, fails for a link whose
  path has an empty second segment: \<open>foo//bar\<close> gives the slug \<open>foo/\<close>.
\<close>

theorem parse_repos_empty_segment:
  "parse_repos ''- [x](https://github.com/foo//bar)'' =
     Inr [\<lparr>name = ''x'', slug = ''foo/'', url = ''https://github.com/foo/'',
           category = [], note_text = [], stars = None\<rparr>]
   \<and> \<not> owner_repo_pattern ''foo/''"
  by code_simp

text \<open>
  C10. The slug of every entry of \<open>parse_repos\<close> holds exactly one slash, and
  \<open>normalize_slug\<close> returns it unchanged, whatever \<open>urlparse\<close> does: the slug validation
  of \<open>fetch_repo_stars\<close> never fails on a parsed entry.
\<close>

theorem parsed_slug_normalizes:
  assumes "parse_repos md = Inr es" and "e \<in> set es"
  shows "str_count ''/'' (slug e) = 1 \<and> normalize_slug urlparse (slug e) = Inr (slug e)"
proof -
  from parse_repos_inv[OF assms(1)] assms(2) have g: "good_slug (slug e)"
    unfolding parse_inv_def by blast
  then show ?thesis
    by (simp add: normalize_slug_def good_slug_count good_slug_no_scheme)
qed

theorem parsed_slug_normalizes_witness:
  "parse_repos ''- [x](https://github.com/foo/bar)'' =
     Inr [\<lparr>name = ''x'', slug = ''foo/bar'', url = ''https://github.com/foo/bar'',
           category = [], note_text = [], stars = None\<rparr>]
   \<and> str_count ''/'' ''foo/bar'' = 1
   \<and> normalize_slug (\<lambda>_. \<lparr>netloc = [], path = []\<rparr>) ''foo/bar'' = Inr ''foo/bar''"
proof -
  let ?e = "\<lparr>name = ''x'', slug = ''foo/bar'', url = ''https://github.com/foo/bar'',
           category = [], note_text = [], stars = None\<rparr>"
  have h: "parse_repos ''- [x](https://github.com/foo/bar)'' = Inr [?e]"
    by code_simp
  from parsed_slug_normalizes[OF h, of ?e "\<lambda>_. \<lparr>netloc = [], path = []\<rparr>"] h
  show ?thesis by simp
qed

text \<open>
  C7. The slugs of the entries that \<open>parse_repos\<close> returns are pairwise distinct. The
  result is the list of the entries that the bullet lines yield one by one, cut to the
  first entry of every slug: an entry of the result is the first one of its slug in
  document order, with that line's name, category and note, and every slug that some
  line yields is the slug of exactly one entry of the result.
\<close>

theorem parse_repos_first_occurrence:
  assumes "parse_repos md = Inr es"
  shows "\<exists>cs. candidates [] (splitlines md) = Inr cs \<and> es = keep_first [] cs \<and>
           distinct (map slug es) \<and> slug ` set es = slug ` set cs \<and>
           (\<forall>e\<in>set es. find (\<lambda>c. slug c = slug e) cs = Some e)"
proof -
  let ?init = "\<lparr>headings = [], entries = [], seen = Map.empty\<rparr>"
  from assms obtain st where st: "parse_loop ?init (splitlines md) = Inr st" "entries st = es"
    by (auto simp: parse_repos_def split: sum.splits)
  have "case candidates (headings ?init) (splitlines md) of
           Inl e \<Rightarrow> parse_loop ?init (splitlines md) = Inl e
         | Inr cs \<Rightarrow> (\<exists>st'. parse_loop ?init (splitlines md) = Inr st' \<and>
               entries st' = entries ?init @ keep_first (map slug (entries ?init)) cs)"
    by (rule parse_loop_candidates) simp
  with st obtain cs where cs: "candidates [] (splitlines md) = Inr cs" "es = keep_first [] cs"
    by (auto split: sum.splits)
  show ?thesis
    using cs keep_first_distinct[of "[]" cs] keep_first_slugs[of "[]" cs]
      keep_first_find[of _ "[]" cs]
    by (intro exI[of _ cs]) auto
qed

theorem parse_repos_first_occurrence_witness:
  "parse_repos (''# Awesome'' @ [CHR 0x0A] @ ''## DBs'' @ [CHR 0x0A]
       @ ''- [foo/bar](https://github.com/foo/bar) - a database'' @ [CHR 0x0A]
       @ ''- [foo/bar](https://github.com/foo/bar/issues) dup'' @ [CHR 0x0A]) =
     Inr [\<lparr>name = ''foo/bar'', slug = ''foo/bar'', url = ''https://github.com/foo/bar'',
           category = ''DBs'', note_text = ''a database'', stars = None\<rparr>]
   \<and> (\<exists>cs. candidates [] (splitlines (''# Awesome'' @ [CHR 0x0A] @ ''## DBs'' @ [CHR 0x0A]
       @ ''- [foo/bar](https://github.com/foo/bar) - a database'' @ [CHR 0x0A]
       @ ''- [foo/bar](https://github.com/foo/bar/issues) dup'' @ [CHR 0x0A])) = Inr cs
       \<and> length cs = 2
       \<and> find (\<lambda>c. slug c = ''foo/bar'') cs =
           Some \<lparr>name = ''foo/bar'', slug = ''foo/bar'', url = ''https://github.com/foo/bar'',
                 category = ''DBs'', note_text = ''a database'', stars = None\<rparr>)"
proof -
  let ?md = "''# Awesome'' @ [CHR 0x0A] @ ''## DBs'' @ [CHR 0x0A]
       @ ''- [foo/bar](https://github.com/foo/bar) - a database'' @ [CHR 0x0A]
       @ ''- [foo/bar](https://github.com/foo/bar/issues) dup'' @ [CHR 0x0A]"
  let ?e = "\<lparr>name = ''foo/bar'', slug = ''foo/bar'', url = ''https://github.com/foo/bar'',
           category = ''DBs'', note_text = ''a database'', stars = None\<rparr>"
  have h: "parse_repos ?md = Inr [?e]"
    by code_simp
  have c: "candidates [] (splitlines ?md) =
      Inr [?e, \<lparr>name = ''foo/bar'', slug = ''foo/bar'', url = ''https://github.com/foo/bar'',
           category = ''DBs'', note_text = ''dup'', stars = None\<rparr>]"
    by code_simp
  from parse_repos_first_occurrence[OF h] obtain cs where
    cs: "candidates [] (splitlines ?md) = Inr cs"
    and f: "\<forall>e\<in>set [?e]. find (\<lambda>c. slug c = slug e) cs = Some e"
    by blast
  from cs c have l: "length cs = 2" by simp
  from f have "find (\<lambda>c. slug c = ''foo/bar'') cs = Some ?e" by simp
  with h cs l show ?thesis by blast
qed

text \<open>
  C8. After any lines \<open>pre\<close> of the document, the heading stack is what truncating and
  pushing at the heading lines gives. A heading line of level \<open>L\<close>, with \<open>L\<close> from 1 to 6,
  cuts the stack to its first \<open>L - 1\<close> titles and pushes its title. A line that produces
  an entry leaves the stack as it is, and the entry's category is the titles of the open
  headings but the first, joined with \<open>" / "\<close>; it is empty when at most one heading is
  open.
\<close>

theorem heading_stack_and_category:
  assumes "parse_loop \<lparr>headings = [], entries = [], seen = Map.empty\<rparr> pre = Inr st"
  shows "headings st = open_headings [] pre
     \<and> (header_match (strip l) = Some (hashes, title) \<longrightarrow>
          1 \<le> length hashes \<and> length hashes \<le> 6 \<and>
          parse_line st l =
            Inr (st\<lparr>headings := take (length hashes - 1) (headings st) @ [strip title]\<rparr>))
     \<and> (parse_line st b = Inr st' \<and> entries st' \<noteq> entries st \<longrightarrow>
          (\<exists>e. entries st' = entries st @ [e] \<and> headings st' = headings st \<and>
               category e =
                 (if length (headings st) \<le> 1 then [] else join '' / '' (tl (headings st)))))"
proof (intro conjI impI)
  show "headings st = open_headings [] pre"
    using parse_loop_headings[OF assms] by simp
next
  assume "header_match (strip l) = Some (hashes, title)"
  then show "1 \<le> length hashes" "length hashes \<le> 6"
    "parse_line st l =
       Inr (st\<lparr>headings := take (length hashes - 1) (headings st) @ [strip title]\<rparr>)"
    using header_match_level[of "strip l" hashes title]
    by (simp_all add: parse_line_header)
next
  assume a: "parse_line st b = Inr st' \<and> entries st' \<noteq> entries st"
  then have pl: "parse_line st b = Inr st'" and ne: "entries st' \<noteq> entries st"
    by simp_all
  from parse_line_cases[OF pl] ne
  show "\<exists>e. entries st' = entries st @ [e] \<and> headings st' = headings st \<and>
               category e =
                 (if length (headings st) \<le> 1 then [] else join '' / '' (tl (headings st)))"
    by (elim disjE exE conjE) (auto simp: current_category_eq)
qed

theorem heading_stack_and_category_witness:
  "\<exists>st st'. parse_loop \<lparr>headings = [], entries = [], seen = Map.empty\<rparr>
          [''# Awesome'', ''## DBs''] = Inr st
     \<and> headings st = [''Awesome'', ''DBs'']
     \<and> open_headings [] [''# Awesome'', ''## DBs''] = [''Awesome'', ''DBs'']
     \<and> header_match (strip ''## Tools'') = Some (''##'', ''Tools'')
     \<and> parse_line st ''## Tools'' = Inr (st\<lparr>headings := [''Awesome'', ''Tools'']\<rparr>)
     \<and> parse_line st ''- [foo/bar](https://github.com/foo/bar) - a database'' = Inr st'
     \<and> entries st = []
     \<and> (\<exists>e. entries st' = [e] \<and> category e = ''DBs'')"
proof -
  let ?init = "\<lparr>headings = [], entries = [], seen = Map.empty\<rparr>"
  let ?pre = "[''# Awesome'', ''## DBs'']"
  let ?b = "''- [foo/bar](https://github.com/foo/bar) - a database''"
  have "map_sum id (\<lambda>s. (headings s, entries s)) (parse_loop ?init ?pre) =
      Inr ([''Awesome'', ''DBs''], [])"
    by code_simp
  then obtain st where st: "parse_loop ?init ?pre = Inr st"
    and hs: "headings st = [''Awesome'', ''DBs'']" and es: "entries st = []"
    by (cases "parse_loop ?init ?pre") auto
  have oh: "open_headings [] ?pre = [''Awesome'', ''DBs'']"
    by code_simp
  have hm: "header_match (strip ''## Tools'') = Some (''##'', ''Tools'')"
    by code_simp
  have st2: "strip ''Tools'' = ''Tools''"
    by code_simp
  have "map_sum id (\<lambda>s. map category (entries s))
      (parse_line (fresh [''Awesome'', ''DBs'']) ?b) = Inr [''DBs'']"
    by code_simp
  then obtain f where f: "parse_line (fresh (headings st)) ?b = Inr f"
    and fe: "map category (entries f) = [''DBs'']"
    unfolding hs by (cases "parse_line (fresh [''Awesome'', ''DBs'']) ?b") auto
  from fe obtain c where c: "entries f = [c]" "category c = ''DBs''"
    by (cases "entries f") auto
  have sn: "seen st (slug c) = None"
    using parse_loop_inv[OF st] es by (auto simp: parse_inv_def)
  define st' where "st' = st\<lparr>seen := (seen st)(slug c \<mapsto> c), entries := entries st @ [c]\<rparr>"
  have pl: "parse_line st ?b = Inr st'"
    using f c sn by (simp add: parse_line_fresh[of st ?b] st'_def)
  have ne: "entries st' \<noteq> entries st"
    by (simp add: st'_def)
  from heading_stack_and_category[OF st, of "''## Tools''" "''##''" "''Tools''" ?b st']
    hm pl ne hs es st2 oh st
  show ?thesis
    by (intro exI[of _ st] exI[of _ st']) auto
qed

end
